theory Spec2Isabelle
  imports Complex_Main
begin

section \<open>Python values and exceptions\<close>

text \<open>
  The values that occur in quote dictionaries: numbers, strings and \<open>None\<close>.
  Python floats are taken as real numbers (no NaN, no rounding).
\<close>

datatype pyval = PNone | PNum real | PStr string

datatype error = TypeError | ValueError | IndexError | ExternalError string

text \<open>A dictionary with string keys, in insertion order; \<open>[]\<close> is the empty (falsy) dict.\<close>

type_synonym quote = "(string \<times> pyval) list"

type_synonym quotes = "string \<rightharpoonup> quote"

section \<open>Alert engine (workers/alert\_manager.py)\<close>

text \<open>
  A row of table \<open>stock_alerts\<close> (database/db.py). \<open>alert_id\<close> is column \<open>id\<close>,
  the primary key. Timestamps are seconds on the store's clock.
\<close>

record alert_row =
  alert_id :: int
  stock_id :: string
  stock_name :: string
  alert_type :: string
  target_price :: real
  is_triggered :: int
  triggered_at :: "nat option"
  created_at :: nat

text \<open>
  The dictionary \<open>alert_msg\<close> built for a fired alert. Its \<open>message\<close> entry is a
  text formatted from the other entries and is left out.
\<close>

record alert_msg =
  ev_id :: int
  ev_stock_id :: string
  ev_stock_name :: string
  ev_alert_type :: string
  ev_target_price :: real
  ev_current_price :: real
  ev_triggered_at :: nat

text \<open>
  The state \<open>check_alerts\<close> works on: the table in the database and the manager's
  in-memory list \<open>triggered_alerts\<close>.
\<close>

record alert_manager =
  stock_alerts :: "alert_row list"
  triggered_alerts :: "alert_msg list"

text \<open>\<open>SELECT * FROM stock_alerts WHERE is_triggered = 0 ORDER BY created_at DESC\<close>\<close>

definition get_active_alerts :: "alert_row list \<Rightarrow> alert_row list" where
  "get_active_alerts tbl = rev (sort_key created_at (filter (\<lambda>r. is_triggered r = 0) tbl))"

text \<open>
  \<open>UPDATE stock_alerts SET is_triggered = 1, triggered_at = CURRENT_TIMESTAMP WHERE id = ?\<close>
\<close>

definition mark_triggered :: "nat \<Rightarrow> int \<Rightarrow> alert_row list \<Rightarrow> alert_row list" where
  "mark_triggered now i tbl =
     map (\<lambda>r. if alert_id r = i then r\<lparr>is_triggered := 1, triggered_at := Some now\<rparr> else r) tbl"

text \<open>\<open>quote.get("price", 0)\<close>\<close>

definition quote_price :: "quote \<Rightarrow> pyval" where
  "quote_price q = (case map_of q ''price'' of None \<Rightarrow> PNum 0 | Some v \<Rightarrow> v)"

text \<open>
  The body of the loop of \<open>check_alerts\<close> up to the decision, for one alert:
  \<open>Inr None\<close> is \<open>continue\<close> or \<open>triggered = False\<close>, \<open>Inr (Some p)\<close> is
  \<open>triggered = True\<close> at current price \<open>p\<close>, and \<open>Inl TypeError\<close> is the exception of
  comparing a price that is not a number.
\<close>

definition alert_check :: "quotes \<Rightarrow> alert_row \<Rightarrow> error + real option" where
  "alert_check qs a =
     (case qs (stock_id a) of
        None \<Rightarrow> Inr None
      | Some q \<Rightarrow>
          if q = [] then Inr None
          else (case quote_price q of
                  PNum current_price \<Rightarrow>
                    if current_price \<le> 0 then Inr None
                    else if alert_type a = ''above'' \<and> target_price a \<le> current_price
                      then Inr (Some current_price)
                    else if alert_type a = ''below'' \<and> current_price \<le> target_price a
                      then Inr (Some current_price)
                    else Inr None
                | _ \<Rightarrow> Inl TypeError))"

definition mk_alert_msg :: "nat \<Rightarrow> alert_row \<Rightarrow> real \<Rightarrow> alert_msg" where
  "mk_alert_msg now a p =
     \<lparr>ev_id = alert_id a, ev_stock_id = stock_id a, ev_stock_name = stock_name a,
      ev_alert_type = alert_type a, ev_target_price = target_price a,
      ev_current_price = p, ev_triggered_at = now\<rparr>"

text \<open>
  The loop \<open>for alert in active_alerts\<close>: the alerts still to visit, the table with the
  updates made so far, and \<open>newly_triggered\<close>.
\<close>

fun check_loop ::
  "nat \<Rightarrow> quotes \<Rightarrow> alert_row list \<Rightarrow> alert_row list \<Rightarrow> alert_msg list \<Rightarrow>
     error + (alert_row list \<times> alert_msg list)" where
  "check_loop now qs [] tbl newly = Inr (tbl, newly)"
| "check_loop now qs (a # as) tbl newly =
     (case alert_check qs a of
        Inl e \<Rightarrow> Inl e
      | Inr None \<Rightarrow> check_loop now qs as tbl newly
      | Inr (Some p) \<Rightarrow>
          check_loop now qs as (mark_triggered now (alert_id a) tbl) (newly @ [mk_alert_msg now a p]))"

text \<open>\<open>xs[-50:]\<close>\<close>

definition last50 :: "'a list \<Rightarrow> 'a list" where
  "last50 xs = drop (length xs - 50) xs"

text \<open>
  \<open>check_alerts\<close> at clock reading \<open>now\<close>. An exception leaves the loop before
  \<open>conn.commit()\<close>: the connection is closed, the updates are rolled back and the
  exception reaches the caller.
\<close>

definition check_alerts ::
  "nat \<Rightarrow> quotes \<Rightarrow> alert_manager \<Rightarrow> (error + alert_msg list) \<times> alert_manager" where
  "check_alerts now qs st =
     (let active_alerts = get_active_alerts (stock_alerts st) in
      if active_alerts = [] then (Inr [], st)
      else (case check_loop now qs active_alerts (stock_alerts st) [] of
              Inl e \<Rightarrow> (Inl e, st)
            | Inr (tbl, newly_triggered) \<Rightarrow>
                (Inr newly_triggered,
                 st\<lparr>stock_alerts := tbl,
                    triggered_alerts :=
                      (if newly_triggered \<noteq> []
                       then last50 (triggered_alerts st @ newly_triggered)
                       else triggered_alerts st)\<rparr>)))"

text \<open>Successive calls of \<open>check_alerts\<close>, one per clock reading and quote map.\<close>

fun check_alerts_calls ::
  "(nat \<times> quotes) list \<Rightarrow> alert_manager \<Rightarrow> (error + alert_msg list) list \<times> alert_manager" where
  "check_alerts_calls [] st = ([], st)"
| "check_alerts_calls ((now, qs) # cs) st =
     (let (r, st1) = check_alerts now qs st;
          (rs, st2) = check_alerts_calls cs st1
      in (r # rs, st2))"

text \<open>The trigger events a caller received: those of the calls that returned.\<close>

fun returned_events :: "(error + alert_msg list) list \<Rightarrow> alert_msg list" where
  "returned_events [] = []"
| "returned_events (Inl e # rs) = returned_events rs"
| "returned_events (Inr evs # rs) = evs @ returned_events rs"

definition active_ids :: "alert_row list \<Rightarrow> int set" where
  "active_ids tbl = alert_id ` {r \<in> set tbl. is_triggered r = 0}"

text \<open>
  The scenario of the specification: one alert \<open>above 1000\<close> on symbol \<open>S\<close> and the
  price readings 995, 1001, 1002, 999, 1003 in successive calls.
\<close>

definition alert_S :: alert_row where
  "alert_S = \<lparr>alert_id = 1, stock_id = ''S'', stock_name = ''S'', alert_type = ''above'',
     target_price = 1000, is_triggered = 0, triggered_at = None, created_at = 0\<rparr>"

definition price_S :: "real \<Rightarrow> quotes" where
  "price_S p = [''S'' \<mapsto> [(''price'', PNum p)]]"

definition readings_S :: "(nat \<times> quotes) list" where
  "readings_S = [(1, price_S 995), (2, price_S 1001), (3, price_S 1002), (4, price_S 999), (5, price_S 1003)]"

definition state_S :: alert_manager where
  "state_S = \<lparr>stock_alerts = [alert_S], triggered_alerts = []\<rparr>"

text \<open>
  An alert already triggered at clock reading 10, and an active alert \<open>below 10\<close>.
\<close>

definition triggered_S :: alert_row where
  "triggered_S = alert_S\<lparr>is_triggered := 1, triggered_at := Some 10\<rparr>"

definition alert_low :: alert_row where
  "alert_low = \<lparr>alert_id = 2, stock_id = ''S'', stock_name = ''S'', alert_type = ''below'',
     target_price = 10, is_triggered = 0, triggered_at = None, created_at = 0\<rparr>"

definition state_low :: alert_manager where
  "state_low = \<lparr>stock_alerts = [alert_low], triggered_alerts = []\<rparr>"

definition state_triggered_S :: alert_manager where
  "state_triggered_S = \<lparr>stock_alerts = [triggered_S], triggered_alerts = []\<rparr>"

section \<open>Quote worker (workers/shioaji\_worker.py)\<close>

subsection \<open>State\<close>

text \<open>
  Dictionaries are objects: a reader that holds one can change it in place. They live in
  a store, a list of objects addressed by position. \<open>Outer\<close> is a dictionary from
  symbols to snapshot objects (\<open>self.cache\<close> and its copies), \<open>Inner\<close> is one snapshot
  dictionary (\<open>data\<close>).
\<close>

type_synonym addr = nat

datatype obj = Outer "string \<rightharpoonup> addr" | Inner quote

text \<open>Calls that leave the process, in the order they are made.\<close>

datatype effect = ApiCreate | ApiLogin | ApiLogout | Sleep nat

text \<open>
  The attributes of \<open>ShioajiWorker\<close>. \<open>api_set\<close> says that \<open>self.api\<close> holds an API
  object; \<open>cache\<close> is the address of the dictionary \<open>self.cache\<close>; \<open>heap\<close> is the
  store of dictionary objects and \<open>trace\<close> the log of outside calls. \<open>_max_retry\<close> and
  \<open>_retry_delays\<close> are assigned once in \<open>__init__\<close> and are constants here.
\<close>

record worker =
  api_set :: bool
  is_connected :: bool
  cache :: addr
  last_update :: "nat option"
  subscribed_stocks :: "string set"
  retry_count :: nat
  heap :: "obj list"
  trace :: "effect list"

definition max_retry :: nat where
  "max_retry = 10"

definition retry_delays :: "nat list" where
  "retry_delays = [5, 10, 15, 30, 60, 60, 120, 120, 300, 300]"

definition worker_init :: worker where
  "worker_init =
     \<lparr>api_set = False, is_connected = False, cache = 0, last_update = None,
      subscribed_stocks = {}, retry_count = 0, heap = [Outer Map.empty], trace = []\<rparr>"

subsection \<open>Connection\<close>

text \<open>
  What the quoting source does at a connection attempt: creating the API object raises,
  \<open>login\<close> raises, or \<open>login\<close> returns; then \<open>ready i\<close> says whether the contract
  table holds \<open>2330\<close> at poll \<open>i\<close> (a poll that raises counts as not ready).
\<close>

datatype connect_outcome = CtorRaises | LoginRaises | LoginOk "nat \<Rightarrow> bool"

text \<open>\<open>for i in range(20)\<close>: leave at the first ready poll, else sleep one second.\<close>

fun wait_loop :: "(nat \<Rightarrow> bool) \<Rightarrow> nat list \<Rightarrow> effect list" where
  "wait_loop ready [] = []"
| "wait_loop ready (i # is) = (if ready i then [] else Sleep 1 # wait_loop ready is)"

definition connect :: "connect_outcome \<Rightarrow> worker \<Rightarrow> bool \<times> worker" where
  "connect out w =
     (if is_connected w then (True, w)
      else (case out of
              CtorRaises \<Rightarrow>
                (False, w\<lparr>is_connected := False, trace := trace w @ [ApiCreate]\<rparr>)
            | LoginRaises \<Rightarrow>
                (False, w\<lparr>api_set := True, is_connected := False,
                           trace := trace w @ [ApiCreate, ApiLogin]\<rparr>)
            | LoginOk ready \<Rightarrow>
                (True, w\<lparr>api_set := True, is_connected := True, retry_count := 0,
                          trace := trace w @ [ApiCreate, ApiLogin] @ wait_loop ready [0..<20]\<rparr>)))"

text \<open>
  \<open>disconnect\<close>: \<open>logout\<close> is called when there is a live session; whether it raises or
  not, the \<open>finally\<close> block runs.
\<close>

definition disconnect :: "worker \<Rightarrow> worker" where
  "disconnect w =
     w\<lparr>is_connected := False, subscribed_stocks := {},
       trace := trace w @ (if api_set w \<and> is_connected w then [ApiLogout] else [])\<rparr>"

definition reconnect :: "connect_outcome \<Rightarrow> worker \<Rightarrow> bool \<times> worker" where
  "reconnect out w =
     (let w1 = disconnect w;
          delay_idx = min (retry_count w1) (length retry_delays - 1);
          delay = retry_delays ! delay_idx;
          w2 = w1\<lparr>retry_count := retry_count w1 + 1\<rparr>
      in if retry_count w2 > max_retry then (False, w2)
         else connect out (w2\<lparr>trace := trace w2 @ [Sleep delay]\<rparr>))"

text \<open>Successive \<open>reconnect\<close> calls, one per outcome of the quoting source.\<close>

fun reconnects :: "connect_outcome list \<Rightarrow> worker \<Rightarrow> bool list \<times> worker" where
  "reconnects [] w = ([], w)"
| "reconnects (out # outs) w =
     (let (r, w1) = reconnect out w;
          (rs, w2) = reconnects outs w1
      in (r # rs, w2))"

fun failing :: "connect_outcome \<Rightarrow> bool" where
  "failing (LoginOk ready) = False"
| "failing out = True"

fun sleeps :: "effect list \<Rightarrow> nat list" where
  "sleeps [] = []"
| "sleeps (Sleep n # es) = n # sleeps es"
| "sleeps (e # es) = sleeps es"

text \<open>The number of connection attempts in a log: each one creates an API object.\<close>

definition attempts :: "effect list \<Rightarrow> nat" where
  "attempts es = count_list es ApiCreate"

subsection \<open>Fetching snapshots\<close>

text \<open>
  The objects of the quoting source. A contract lookup \<open>Contracts.Stocks[sid]\<close> raises,
  gives a falsy value or gives a contract. Of a snapshot, the attributes read directly are
  always there; those read through \<open>hasattr\<close> or \<open>getattr\<close> may be missing.
\<close>

record contract =
  contract_name :: string

datatype contract_lookup = LookupRaises | LookupFalsy | LookupOk contract

record snap =
  snap_close :: pyval
  snap_total_volume :: pyval
  snap_total_amount :: "pyval option"
  snap_average_price :: "pyval option"
  snap_change_price :: "pyval option"
  snap_change_rate :: pyval
  snap_volume :: "pyval option"
  snap_high :: pyval
  snap_low :: pyval
  snap_open :: pyval
  snap_buy_price :: "pyval option"
  snap_sell_price :: "pyval option"

record shioaji_api =
  stocks :: "string \<Rightarrow> contract_lookup"
  snapshots :: "contract list \<Rightarrow> error + snap list"

fun truthy :: "pyval \<Rightarrow> bool" where
  "truthy PNone = False"
| "truthy (PNum x) = (x \<noteq> 0)"
| "truthy (PStr s) = (s \<noteq> [])"

text \<open>\<open>getattr(snap, name, 0)\<close>, and \<open>snap.name if hasattr(snap, name) else 0\<close>\<close>

definition getattr0 :: "pyval option \<Rightarrow> pyval" where
  "getattr0 v = (case v of None \<Rightarrow> PNum 0 | Some x \<Rightarrow> x)"

text \<open>\<open>v or 0\<close>\<close>

definition or0 :: "pyval \<Rightarrow> pyval" where
  "or0 v = (if truthy v then v else PNum 0)"

text \<open>\<open>v > 0\<close>\<close>

fun gt0 :: "pyval \<Rightarrow> error + bool" where
  "gt0 (PNum x) = Inr (0 < x)"
| "gt0 v = Inl TypeError"

text \<open>
  \<open>round(v, 2)\<close>, on real numbers: to the nearest hundredth, halves to the even
  neighbour.
\<close>

definition round_half_even :: "real \<Rightarrow> int" where
  "round_half_even y =
     (let f = \<lfloor>y\<rfloor>; d = y - of_int f
      in if d < 1 / 2 then f else if 1 / 2 < d then f + 1 else if even f then f else f + 1)"

fun round2 :: "pyval \<Rightarrow> error + pyval" where
  "round2 (PNum x) = Inr (PNum (of_int (round_half_even (x * 100)) / 100))"
| "round2 v = Inl TypeError"

text \<open>The volume-weighted average price of a snapshot (the \<open>if\<close>/\<open>elif\<close>/\<open>else\<close>).\<close>

definition vwap_of :: "pyval \<Rightarrow> pyval \<Rightarrow> pyval \<Rightarrow> pyval \<Rightarrow> error + pyval" where
  "vwap_of price volume total_amount avg_price =
     (case gt0 avg_price of
        Inl e \<Rightarrow> Inl e
      | Inr True \<Rightarrow> Inr avg_price
      | Inr False \<Rightarrow>
          (case gt0 volume of
             Inl e \<Rightarrow> Inl e
           | Inr False \<Rightarrow> Inr price
           | Inr True \<Rightarrow>
               (case gt0 total_amount of
                  Inl e \<Rightarrow> Inl e
                | Inr False \<Rightarrow> Inr price
                | Inr True \<Rightarrow>
                    (case (total_amount, volume) of
                       (PNum ta, PNum v) \<Rightarrow> Inr (PNum (ta / v))
                     | _ \<Rightarrow> Inl TypeError))))"

text \<open>The dictionary \<open>data\<close> built from one snapshot.\<close>

definition build_data :: "string \<Rightarrow> string \<Rightarrow> contract \<Rightarrow> snap \<Rightarrow> error + quote" where
  "build_data now_str sid c s =
     (let price = snap_close s;
          volume = snap_total_volume s;
          total_amount = or0 (getattr0 (snap_total_amount s));
          avg_price = or0 (getattr0 (snap_average_price s))
      in case vwap_of price volume total_amount avg_price of
           Inl e \<Rightarrow> Inl e
         | Inr vwap \<Rightarrow>
             (case round2 vwap of
                Inl e \<Rightarrow> Inl e
              | Inr rounded \<Rightarrow>
                  Inr [(''stock_id'', PStr sid),
                       (''stock_name'', PStr (contract_name c)),
                       (''price'', price),
                       (''change_price'', getattr0 (snap_change_price s)),
                       (''change_percent'',
                          (if snap_change_rate s \<noteq> PNone then snap_change_rate s else PNum 0)),
                       (''volume'', getattr0 (snap_volume s)),
                       (''total_volume'', volume),
                       (''amount'', total_amount),
                       (''high'', snap_high s),
                       (''low'', snap_low s),
                       (''open'', snap_open s),
                       (''close'', price),
                       (''buy_price'', getattr0 (snap_buy_price s)),
                       (''sell_price'', getattr0 (snap_sell_price s)),
                       (''vwap'', rounded),
                       (''update_time'', PStr now_str)]))"

text \<open>
  The first loop: the symbols whose lookup gives a contract, each with its contract
  (\<open>valid_ids\<close> and \<open>contracts\<close>, which grow together).
\<close>

fun resolve_loop :: "(string \<Rightarrow> contract_lookup) \<Rightarrow> string list \<Rightarrow> (string \<times> contract) list" where
  "resolve_loop look [] = []"
| "resolve_loop look (sid # sids) =
     (case look sid of
        LookupOk c \<Rightarrow> (sid, c) # resolve_loop look sids
      | _ \<Rightarrow> resolve_loop look sids)"

text \<open>\<open>self.cache[sid] = data\<close>: an update in place of the dictionary object.\<close>

definition cache_put :: "addr \<Rightarrow> string \<Rightarrow> addr \<Rightarrow> obj list \<Rightarrow> obj list" where
  "cache_put c sid a h = (case h ! c of Outer m \<Rightarrow> h[c := Outer (m(sid \<mapsto> a))] | _ \<Rightarrow> h)"

text \<open>
  The second loop, over \<open>enumerate(snapshots)\<close>: \<open>valid_ids[i]\<close> raises when there are
  more snapshots than symbols. A new \<open>data\<close> object is stored in \<open>results\<close> and in the
  cache. An exception leaves what was already written to the cache in place.
\<close>

fun store_loop ::
  "nat \<Rightarrow> string \<Rightarrow> (string \<times> contract) list \<Rightarrow> snap list \<Rightarrow> (string \<rightharpoonup> addr) \<Rightarrow> worker \<Rightarrow>
     (error + (string \<rightharpoonup> addr)) \<times> worker" where
  "store_loop now now_str vs [] results w = (Inr results, w)"
| "store_loop now now_str [] (s # ss) results w = (Inl IndexError, w)"
| "store_loop now now_str ((sid, c) # vs) (s # ss) results w =
     (case build_data now_str sid c s of
        Inl e \<Rightarrow> (Inl e, w)
      | Inr data \<Rightarrow>
          (let a = length (heap w);
               h = heap w @ [Inner data]
           in store_loop now now_str vs ss (results(sid \<mapsto> a))
                (w\<lparr>heap := cache_put (cache w) sid a h, last_update := Some now\<rparr>)))"

text \<open>The \<open>try\<close> block of \<open>fetch_snapshots\<close>.\<close>

definition fetch_try ::
  "shioaji_api \<Rightarrow> nat \<Rightarrow> string \<Rightarrow> string list \<Rightarrow> worker \<Rightarrow> (error + (string \<rightharpoonup> addr)) \<times> worker" where
  "fetch_try api now now_str stock_ids w =
     (let vs = resolve_loop (stocks api) stock_ids
      in if vs = [] then (Inr Map.empty, w)
         else (case snapshots api (map snd vs) of
                 Inl e \<Rightarrow> (Inl e, w)
               | Inr snaps \<Rightarrow> store_loop now now_str vs snaps Map.empty w))"

text \<open>\<open>fetch_snapshots\<close>: the guard, the \<open>try\<close> block and its \<open>except Exception\<close>.\<close>

definition fetch_snapshots ::
  "shioaji_api \<Rightarrow> nat \<Rightarrow> string \<Rightarrow> string list \<Rightarrow> worker \<Rightarrow> (string \<rightharpoonup> addr) \<times> worker" where
  "fetch_snapshots api now now_str stock_ids w =
     (if \<not> is_connected w \<or> \<not> api_set w then (Map.empty, w)
      else (case fetch_try api now now_str stock_ids w of
              (Inl e, w') \<Rightarrow> (Map.empty, w')
            | (Inr results, w') \<Rightarrow> (results, w')))"

text \<open>The states the worker can be in: those its operations make from the initial one.\<close>

inductive reachable :: "worker \<Rightarrow> bool" where
  init: "reachable worker_init"
| connect: "reachable w \<Longrightarrow> reachable (snd (connect out w))"
| disconnect: "reachable w \<Longrightarrow> reachable (disconnect w)"
| reconnect: "reachable w \<Longrightarrow> reachable (snd (reconnect out w))"
| fetch: "reachable w \<Longrightarrow> reachable (snd (fetch_snapshots api now now_str stock_ids w))"

subsection \<open>Reading the cache\<close>

text \<open>\<open>dict(self.cache)\<close>: a new dictionary object with the entries of the cache.\<close>

definition get_cache :: "worker \<Rightarrow> addr \<times> worker" where
  "get_cache w = (length (heap w), w\<lparr>heap := heap w @ [heap w ! cache w]\<rparr>)"

text \<open>\<open>self.cache.get(stock_id)\<close>: the object in the cache, or \<open>None\<close>.\<close>

definition get_stock_cache :: "string \<Rightarrow> worker \<Rightarrow> addr option" where
  "get_stock_cache sid w = (case heap w ! cache w of Outer m \<Rightarrow> m sid | _ \<Rightarrow> None)"

text \<open>
  What a reader sees behind a result: the contents of the snapshot object at an address,
  and the contents of every snapshot of a dictionary of snapshots.
\<close>

definition snapshot_at :: "obj list \<Rightarrow> addr \<Rightarrow> quote option" where
  "snapshot_at h a = (if a < length h then (case h ! a of Inner q \<Rightarrow> Some q | _ \<Rightarrow> None) else None)"

definition entries_at :: "obj list \<Rightarrow> addr \<Rightarrow> string \<Rightarrow> addr option" where
  "entries_at h a sid = (if a < length h then (case h ! a of Outer m \<Rightarrow> m sid | _ \<Rightarrow> None) else None)"

definition quotes_at :: "obj list \<Rightarrow> addr \<Rightarrow> quotes" where
  "quotes_at h a sid = (case entries_at h a sid of None \<Rightarrow> None | Some b \<Rightarrow> snapshot_at h b)"

text \<open>A caller changing in place an object it holds.\<close>

definition mutate :: "addr \<Rightarrow> obj \<Rightarrow> worker \<Rightarrow> worker" where
  "mutate a v w = w\<lparr>heap := (heap w)[a := v]\<rparr>"

subsection \<open>Trading hours\<close>

text \<open>A \<open>datetime.time\<close> without time zone; times compare field by field.\<close>

record dt_time =
  hour :: nat
  minute :: nat
  second :: nat
  microsecond :: nat

definition time_le :: "dt_time \<Rightarrow> dt_time \<Rightarrow> bool" where
  "time_le s t \<longleftrightarrow>
     hour s < hour t \<or>
     (hour s = hour t \<and>
       (minute s < minute t \<or>
        (minute s = minute t \<and>
          (second s < second t \<or>
           (second s = second t \<and> microsecond s \<le> microsecond t)))))"

definition time_less :: "dt_time \<Rightarrow> dt_time \<Rightarrow> bool" where
  "time_less s t \<longleftrightarrow> time_le s t \<and> \<not> time_le t s"

text \<open>\<open>TRADING_SESSIONS\<close> of config.py, in the order of the dictionary.\<close>

definition TRADING_SESSIONS :: "(string \<times> string \<times> string) list" where
  "TRADING_SESSIONS =
     [(''pre_market'', ''08:30'', ''09:00''),
      (''market'', ''09:00'', ''13:30''),
      (''after_hours'', ''13:40'', ''14:30'')]"

text \<open>\<open>s.split(":")\<close>\<close>

fun split_on :: "char \<Rightarrow> string \<Rightarrow> string \<Rightarrow> string list" where
  "split_on sep acc [] = [rev acc]"
| "split_on sep acc (c # cs) =
     (if c = sep then rev acc # split_on sep [] cs else split_on sep (c # acc) cs)"

text \<open>
  \<open>int(s)\<close> for a string of decimal digits. Anything else is a \<open>ValueError\<close> here; Python
  also reads a sign, blanks around the number and underscores between digits, which the
  configured strings do not have.
\<close>

definition digit_of :: "char \<Rightarrow> nat option" where
  "digit_of c =
     (let n = (of_char c :: nat) in if 48 \<le> n \<and> n \<le> 57 then Some (n - 48) else None)"

fun digits_value :: "nat \<Rightarrow> string \<Rightarrow> error + nat" where
  "digits_value n [] = Inr n"
| "digits_value n (c # cs) =
     (case digit_of c of None \<Rightarrow> Inl ValueError | Some d \<Rightarrow> digits_value (10 * n + d) cs)"

definition py_int :: "string \<Rightarrow> error + nat" where
  "py_int s = (if s = [] then Inl ValueError else digits_value 0 s)"

text \<open>\<open>h, m = map(int, s.split(":"))\<close>: exactly two parts, each a number.\<close>

definition parse_hm :: "string \<Rightarrow> error + (nat \<times> nat)" where
  "parse_hm s =
     (case split_on CHR '':'' [] s of
        [a, b] \<Rightarrow>
          (case py_int a of
             Inl e \<Rightarrow> Inl e
           | Inr h \<Rightarrow> (case py_int b of Inl e \<Rightarrow> Inl e | Inr m \<Rightarrow> Inr (h, m)))
      | _ \<Rightarrow> Inl ValueError)"

text \<open>\<open>dt_time(h, m)\<close>\<close>

definition mk_time :: "nat \<Rightarrow> nat \<Rightarrow> error + dt_time" where
  "mk_time h m =
     (if h \<le> 23 \<and> m \<le> 59 then Inr \<lparr>hour = h, minute = m, second = 0, microsecond = 0\<rparr>
      else Inl ValueError)"

text \<open>
  The loop of \<open>is_trading_time\<close> over the sessions. In the chained comparison
  \<open>dt_time(h1, m1) <= now <= dt_time(h2, m2)\<close> the end time is built only when the first
  comparison holds.
\<close>

fun sessions_loop :: "(string \<times> string \<times> string) list \<Rightarrow> dt_time \<Rightarrow> error + bool" where
  "sessions_loop [] now = Inr False"
| "sessions_loop ((session_name, start_str, end_str) # rest) now =
     (case parse_hm start_str of
        Inl e \<Rightarrow> Inl e
      | Inr (h1, m1) \<Rightarrow>
          (case parse_hm end_str of
             Inl e \<Rightarrow> Inl e
           | Inr (h2, m2) \<Rightarrow>
               (case mk_time h1 m1 of
                  Inl e \<Rightarrow> Inl e
                | Inr t1 \<Rightarrow>
                    if time_le t1 now
                    then (case mk_time h2 m2 of
                            Inl e \<Rightarrow> Inl e
                          | Inr t2 \<Rightarrow> if time_le now t2 then Inr True else sessions_loop rest now)
                    else sessions_loop rest now)))"

definition is_trading_time :: "dt_time \<Rightarrow> error + bool" where
  "is_trading_time now = sessions_loop TRADING_SESSIONS now"

text \<open>The start and end time of a session, when both strings are well formed.\<close>

definition window :: "string \<Rightarrow> string \<Rightarrow> (dt_time \<times> dt_time) option" where
  "window start_str end_str =
     (case (parse_hm start_str, parse_hm end_str) of
        (Inr (h1, m1), Inr (h2, m2)) \<Rightarrow>
          (case (mk_time h1 m1, mk_time h2 m2) of
             (Inr t1, Inr t2) \<Rightarrow> Some (t1, t2)
           | _ \<Rightarrow> None)
      | _ \<Rightarrow> None)"

text \<open>
  The gate in the specification's words: the current time is in some window taken as the
  half-open interval from start to end.
\<close>

definition in_half_open_window :: "(string \<times> string \<times> string) list \<Rightarrow> dt_time \<Rightarrow> bool" where
  "in_half_open_window ss now =
     list_ex (\<lambda>(session_name, start_str, end_str).
        case window start_str end_str of
          None \<Rightarrow> False
        | Some (t1, t2) \<Rightarrow> time_le t1 now \<and> time_less now t2) ss"

text \<open>The gate as the code has it: the windows are closed intervals.\<close>

definition in_closed_window :: "(string \<times> string \<times> string) list \<Rightarrow> dt_time \<Rightarrow> bool" where
  "in_closed_window ss now =
     list_ex (\<lambda>(session_name, start_str, end_str).
        case window start_str end_str of
          None \<Rightarrow> False
        | Some (t1, t2) \<Rightarrow> time_le t1 now \<and> time_le now t2) ss"

text \<open>The configured start and end times.\<close>

definition t0830 :: dt_time where
  "t0830 = \<lparr>hour = 8, minute = 30, second = 0, microsecond = 0\<rparr>"

definition t0900 :: dt_time where
  "t0900 = \<lparr>hour = 9, minute = 0, second = 0, microsecond = 0\<rparr>"

definition t1330 :: dt_time where
  "t1330 = \<lparr>hour = 13, minute = 30, second = 0, microsecond = 0\<rparr>"

definition t1340 :: dt_time where
  "t1340 = \<lparr>hour = 13, minute = 40, second = 0, microsecond = 0\<rparr>"

definition t1430 :: dt_time where
  "t1430 = \<lparr>hour = 14, minute = 30, second = 0, microsecond = 0\<rparr>"

text \<open>
  A quoting source that knows \<open>2330\<close>, answers a falsy contract for \<open>0000\<close>, raises for
  any other symbol and returns one snapshot for each contract; and a connected worker.
\<close>

definition snap_demo :: snap where
  "snap_demo =
     \<lparr>snap_close = PNum 600, snap_total_volume = PNum 1000, snap_total_amount = Some (PNum 600000),
      snap_average_price = None, snap_change_price = Some (PNum 5), snap_change_rate = PNone,
      snap_volume = Some (PNum 10), snap_high = PNum 605, snap_low = PNum 595, snap_open = PNum 598,
      snap_buy_price = None, snap_sell_price = None\<rparr>"

definition api_demo :: shioaji_api where
  "api_demo =
     \<lparr>stocks = (\<lambda>sid. if sid = ''2330'' then LookupOk \<lparr>contract_name = ''TSMC''\<rparr>
                       else if sid = ''0000'' then LookupFalsy else LookupRaises),
      snapshots = (\<lambda>cs. Inr (map (\<lambda>c. snap_demo) cs))\<rparr>"

definition worker_connected :: worker where
  "worker_connected = worker_init\<lparr>api_set := True, is_connected := True\<rparr>"

text \<open>
  The worker after one fetch of \<open>2330\<close>, and the contents a caller leaves in a snapshot
  dictionary after clearing it and setting its price to 0.
\<close>

definition cached_demo :: worker where
  "cached_demo = snd (fetch_snapshots api_demo 1 ''09:00:15'' [''2330''] worker_connected)"

definition zeroed :: obj where
  "zeroed = Inner [(''price'', PNum 0)]"

(*DEFS*)

section \<open>Properties of the alert engine\<close>

lemma mark_triggered_ids: "map alert_id (mark_triggered now i tbl) = map alert_id tbl"
  by (induction tbl) (simp_all add: mark_triggered_def)

lemma active_ids_Nil: "active_ids [] = {}"
  by (simp add: active_ids_def)
lemma active_ids_Cons:
  "active_ids (r # tbl) = (if is_triggered r = 0 then insert (alert_id r) (active_ids tbl) else active_ids tbl)"
  unfolding active_ids_def by (cases "is_triggered r = 0") auto
lemma active_ids_mark: "active_ids (mark_triggered now i tbl) = active_ids tbl - {i}"
proof (induction tbl)
  case Nil
  show ?case by (simp add: mark_triggered_def active_ids_Nil)
next
  case (Cons r tbl)
  have m: "mark_triggered now i (r # tbl) =
    (if alert_id r = i then r\<lparr>is_triggered := 1, triggered_at := Some now\<rparr> else r) # mark_triggered now i tbl"
    by (simp add: mark_triggered_def)
  show ?case
  proof (cases "alert_id r = i")
    case True
    then show ?thesis using Cons.IH by (simp add: m active_ids_Cons) 
  next
    case False
    then show ?thesis using Cons.IH by (auto simp: m active_ids_Cons)
  qed
qed

lemma set_get_active_alerts:
  "set (get_active_alerts tbl) = {r \<in> set tbl. is_triggered r = 0}"
  by (auto simp: get_active_alerts_def)

lemma distinct_active_ids:
  assumes "distinct (map alert_id tbl)"
  shows "distinct (map alert_id (get_active_alerts tbl))"
proof -
  have "distinct (map alert_id (filter (\<lambda>r. is_triggered r = 0) tbl))"
    using assms by (rule distinct_map_filter)
  then have "distinct (filter (\<lambda>r. is_triggered r = 0) tbl)"
    and "inj_on alert_id (set (filter (\<lambda>r. is_triggered r = 0) tbl))"
    by (simp_all add: distinct_map)
  then show ?thesis
    by (simp add: get_active_alerts_def distinct_map)
qed

lemma check_loop_ids:
  "check_loop now qs as tbl newly = Inr (tbl', newly') \<Longrightarrow>
     \<exists>fired. newly' = newly @ fired \<and> set (map ev_id fired) \<subseteq> set (map alert_id as) \<and>
       (distinct (map alert_id as) \<longrightarrow> distinct (map ev_id fired)) \<and>
       active_ids tbl' = active_ids tbl - set (map ev_id fired) \<and>
       map alert_id tbl' = map alert_id tbl"
proof (induction as arbitrary: tbl newly)
  case Nil
  then show ?case by simp
next
  case (Cons a as)
  show ?case
  proof (cases "alert_check qs a")
    case (Inl e)
    with Cons.prems show ?thesis by simp
  next
    case (Inr res)
    show ?thesis
    proof (cases res)
      case None
      with Inr Cons.prems have "check_loop now qs as tbl newly = Inr (tbl', newly')" by simp
      from Cons.IH [OF this] obtain fired where
        f: "newly' = newly @ fired"
           "set (map ev_id fired) \<subseteq> set (map alert_id as)"
           "distinct (map alert_id as) \<longrightarrow> distinct (map ev_id fired)"
           "active_ids tbl' = active_ids tbl - set (map ev_id fired)"
           "map alert_id tbl' = map alert_id tbl"
        by blast
      have 2: "set (map ev_id fired) \<subseteq> set (map alert_id (a # as))"
        using f(2) by auto
      have 3: "distinct (map alert_id (a # as)) \<longrightarrow> distinct (map ev_id fired)"
        using f(3) by simp
      from f(1) 2 3 f(4) f(5) show ?thesis by blast
    next
      case (Some p)
      with Inr Cons.prems have
        "check_loop now qs as (mark_triggered now (alert_id a) tbl) (newly @ [mk_alert_msg now a p])
           = Inr (tbl', newly')" by simp
      from Cons.IH [OF this] obtain fired where
        f: "newly' = (newly @ [mk_alert_msg now a p]) @ fired"
           "set (map ev_id fired) \<subseteq> set (map alert_id as)"
           "distinct (map alert_id as) \<longrightarrow> distinct (map ev_id fired)"
           "active_ids tbl' = active_ids (mark_triggered now (alert_id a) tbl) - set (map ev_id fired)"
           "map alert_id tbl' = map alert_id (mark_triggered now (alert_id a) tbl)"
        by blast
      have e: "ev_id (mk_alert_msg now a p) = alert_id a" by (simp add: mk_alert_msg_def)
      let ?fired = "mk_alert_msg now a p # fired"
      have 1: "newly' = newly @ ?fired" using f(1) by simp
      have 2: "set (map ev_id ?fired) \<subseteq> set (map alert_id (a # as))"
        using f(2) e by auto
      have 3: "distinct (map alert_id (a # as)) \<longrightarrow> distinct (map ev_id ?fired)"
        using f(2,3) e by auto
      have 4: "active_ids tbl' = active_ids tbl - set (map ev_id ?fired)"
        using f(4) e by (auto simp: active_ids_mark)
      have 5: "map alert_id tbl' = map alert_id tbl"
        using f(5) by (simp add: mark_triggered_ids)
      from 1 2 3 4 5 show ?thesis by blast
    qed
  qed
qed

lemma mark_triggered_keeps:
  "r \<in> set tbl \<Longrightarrow> alert_id r \<noteq> i \<Longrightarrow> r \<in> set (mark_triggered now i tbl)"
  by (induction tbl) (auto simp: mark_triggered_def)

lemma check_loop_keeps:
  "check_loop now qs as tbl newly = Inr (tbl', newly') \<Longrightarrow> r \<in> set tbl \<Longrightarrow>
   \<forall>a\<in>set as. alert_id a = alert_id r \<longrightarrow> alert_check qs a = Inr None \<Longrightarrow>
     r \<in> set tbl' \<and> (\<forall>e\<in>set newly' - set newly. ev_id e \<noteq> alert_id r)"
proof (induction as arbitrary: tbl newly)
  case Nil
  then show ?case by simp
next
  case (Cons a as)
  have rest: "\<forall>a\<in>set as. alert_id a = alert_id r \<longrightarrow> alert_check qs a = Inr None"
    using Cons.prems(3) by simp
  show ?case
  proof (cases "alert_check qs a")
    case (Inl e)
    with Cons.prems(1) show ?thesis by simp
  next
    case (Inr res)
    show ?thesis
    proof (cases res)
      case None
      with Inr Cons.prems(1) have "check_loop now qs as tbl newly = Inr (tbl', newly')" by simp
      from Cons.IH [OF this Cons.prems(2) rest] show ?thesis .
    next
      case (Some p)
      with Inr Cons.prems(3) have ne: "alert_id r \<noteq> alert_id a" by auto
      from Some Inr Cons.prems(1) have
        run: "check_loop now qs as (mark_triggered now (alert_id a) tbl) (newly @ [mk_alert_msg now a p])
           = Inr (tbl', newly')" by simp
      have "r \<in> set (mark_triggered now (alert_id a) tbl)"
        using Cons.prems(2) ne by (rule mark_triggered_keeps)
      from Cons.IH [OF run this rest] have
        k: "r \<in> set tbl'"
           "\<forall>e\<in>set newly' - set (newly @ [mk_alert_msg now a p]). ev_id e \<noteq> alert_id r"
        by simp_all
      have "ev_id (mk_alert_msg now a p) = alert_id a" by (simp add: mk_alert_msg_def)
      with ne k(2) have "\<forall>e\<in>set newly' - set newly. ev_id e \<noteq> alert_id r"
        by auto
      with k(1) show ?thesis by simp
    qed
  qed
qed

lemma same_id_same_row:
  "distinct (map alert_id tbl) \<Longrightarrow> r \<in> set tbl \<Longrightarrow> a \<in> set tbl \<Longrightarrow>
     alert_id a = alert_id r \<Longrightarrow> a = r"
  by (meson distinct_map inj_on_def)

text \<open>One call: what it returns and what it leaves in the store.\<close>

lemma check_alerts_step:
  assumes d: "distinct (map alert_id (stock_alerts st))"
    and c: "check_alerts now qs st = (res, st')"
  shows "map alert_id (stock_alerts st') = map alert_id (stock_alerts st)"
    and "\<And>e. res = Inl e \<Longrightarrow> st' = st"
    and "\<And>evs. res = Inr evs \<Longrightarrow> distinct (map ev_id evs) \<and>
           set (map ev_id evs) \<subseteq> active_ids (stock_alerts st) \<and>
           active_ids (stock_alerts st') = active_ids (stock_alerts st) - set (map ev_id evs)"
proof -
  let ?act = "get_active_alerts (stock_alerts st)"
  have sub: "set (map alert_id ?act) \<subseteq> active_ids (stock_alerts st)"
    by (simp add: set_get_active_alerts active_ids_def)
  have dist: "distinct (map alert_id ?act)" using d by (rule distinct_active_ids)
  show "map alert_id (stock_alerts st') = map alert_id (stock_alerts st)"
  proof (cases "?act = []")
    case True
    with c show ?thesis by (simp add: check_alerts_def)
  next
    case False
    show ?thesis
    proof (cases "check_loop now qs ?act (stock_alerts st) []")
      case (Inl e)
      with False c show ?thesis by (simp add: check_alerts_def)
    next
      case (Inr pr)
      obtain tbl newly where pr: "pr = (tbl, newly)" by (cases pr)
      from check_loop_ids [OF Inr [unfolded pr]] have "map alert_id tbl = map alert_id (stock_alerts st)"
        by blast
      moreover from False Inr pr c have "stock_alerts st' = tbl"
        by (auto simp: check_alerts_def)
      ultimately show ?thesis by simp
    qed
  qed
  show "\<And>e. res = Inl e \<Longrightarrow> st' = st"
  proof -
    fix e assume r: "res = Inl e"
    show "st' = st"
    proof (cases "?act = []")
      case True
      with c r show ?thesis by (simp add: check_alerts_def)
    next
      case False
      with c r show ?thesis
        by (cases "check_loop now qs ?act (stock_alerts st) []")
           (auto simp: check_alerts_def)
    qed
  qed
  show "\<And>evs. res = Inr evs \<Longrightarrow> distinct (map ev_id evs) \<and>
           set (map ev_id evs) \<subseteq> active_ids (stock_alerts st) \<and>
           active_ids (stock_alerts st') = active_ids (stock_alerts st) - set (map ev_id evs)"
  proof -
    fix evs assume r: "res = Inr evs"
    show "distinct (map ev_id evs) \<and>
           set (map ev_id evs) \<subseteq> active_ids (stock_alerts st) \<and>
           active_ids (stock_alerts st') = active_ids (stock_alerts st) - set (map ev_id evs)"
    proof (cases "?act = []")
      case True
      with c r have "evs = []" "st' = st" by (simp_all add: check_alerts_def)
      then show ?thesis by simp
    next
      case False
      show ?thesis
      proof (cases "check_loop now qs ?act (stock_alerts st) []")
        case (Inl e)
        with False c r show ?thesis by (simp add: check_alerts_def)
      next
        case (Inr pr)
        obtain tbl newly where pr: "pr = (tbl, newly)" by (cases pr)
        from check_loop_ids [OF Inr [unfolded pr]] obtain fired where
          f: "newly = [] @ fired"
             "set (map ev_id fired) \<subseteq> set (map alert_id ?act)"
             "distinct (map alert_id ?act) \<longrightarrow> distinct (map ev_id fired)"
             "active_ids tbl = active_ids (stock_alerts st) - set (map ev_id fired)"
          by blast
        from False Inr pr c r have s: "stock_alerts st' = tbl" "evs = newly"
          by (auto simp: check_alerts_def)
        from f s dist sub show ?thesis by auto
      qed
    qed
  qed
qed

lemma count_list_distinct:
  "distinct xs \<Longrightarrow> count_list xs x = (if x \<in> set xs then 1 else 0)"
  by (induction xs) auto

lemma calls_count:
  "distinct (map alert_id (stock_alerts st)) \<Longrightarrow>
     count_list (map ev_id (returned_events (fst (check_alerts_calls cs st)))) i
       \<le> (if i \<in> active_ids (stock_alerts st) then 1 else 0)"
proof (induction cs arbitrary: st)
  case Nil
  then show ?case by simp
next
  case (Cons c cs)
  obtain now qs where c: "c = (now, qs)" by (cases c)
  obtain res st1 where s1: "check_alerts now qs st = (res, st1)" by (cases "check_alerts now qs st")
  obtain rs st2 where s2: "check_alerts_calls cs st1 = (rs, st2)" by (cases "check_alerts_calls cs st1")
  have run: "fst (check_alerts_calls (c # cs) st) = res # rs"
    by (simp add: c s1 s2)
  have "map alert_id (stock_alerts st1) = map alert_id (stock_alerts st)"
    using Cons.prems s1 by (rule check_alerts_step(1))
  with Cons.prems have d1: "distinct (map alert_id (stock_alerts st1))" by simp
  have ih: "count_list (map ev_id (returned_events rs)) i
       \<le> (if i \<in> active_ids (stock_alerts st1) then 1 else 0)"
    using Cons.IH [OF d1] s2 by simp
  show ?case
  proof (cases res)
    case (Inl e)
    then have "st1 = st" using check_alerts_step(2) [OF Cons.prems s1] by simp
    with ih Inl show ?thesis by (simp add: run)
  next
    case (Inr evs)
    from check_alerts_step(3) [OF Cons.prems s1 Inr] have
      e: "distinct (map ev_id evs)" "set (map ev_id evs) \<subseteq> active_ids (stock_alerts st)"
         "active_ids (stock_alerts st1) = active_ids (stock_alerts st) - set (map ev_id evs)"
      by simp_all
    have cnt: "count_list (map ev_id evs) i = (if i \<in> set (map ev_id evs) then 1 else 0)"
      using e(1) by (rule count_list_distinct)
    have ev: "returned_events (res # rs) = evs @ returned_events rs" by (simp add: Inr)
    show ?thesis
    proof (cases "i \<in> set (map ev_id evs)")
      case True
      with e(3) have "i \<notin> active_ids (stock_alerts st1)" by simp
      with ih have "count_list (map ev_id (returned_events rs)) i = 0" by simp
      moreover from True e(2) have "i \<in> active_ids (stock_alerts st)" by blast
      ultimately show ?thesis using cnt True by (simp add: run ev)
    next
      case False
      with e(3) have "i \<in> active_ids (stock_alerts st1) \<longleftrightarrow> i \<in> active_ids (stock_alerts st)"
        by simp
      with ih cnt False show ?thesis by (simp add: run ev)
    qed
  qed
qed


text \<open>
  Claim C1. Over any sequence of \<open>check_alerts\<close> calls on any quote maps, the calls
  return at most one trigger event for each alert (ids being unique, as the primary key
  makes them), and none for an alert that was already triggered at the start. In the
  scenario \<open>above 1000\<close> on \<open>S\<close> with readings 995, 1001, 1002, 999, 1003 exactly one
  event is returned, at the 1001 reading, and every later call returns nothing.
\<close>

theorem check_alerts_fires_at_most_once:
  "(distinct (map alert_id (stock_alerts st)) \<longrightarrow>
      count_list (map ev_id (returned_events (fst (check_alerts_calls cs st)))) i
        \<le> (if i \<in> active_ids (stock_alerts st) then 1 else 0)) \<and>
   fst (check_alerts_calls readings_S state_S)
     = [Inr [], Inr [mk_alert_msg 2 alert_S 1001], Inr [], Inr [], Inr []]"
proof
  show "distinct (map alert_id (stock_alerts st)) \<longrightarrow>
      count_list (map ev_id (returned_events (fst (check_alerts_calls cs st)))) i
        \<le> (if i \<in> active_ids (stock_alerts st) then 1 else 0)"
    using calls_count by blast
  show "fst (check_alerts_calls readings_S state_S)
     = [Inr [], Inr [mk_alert_msg 2 alert_S 1001], Inr [], Inr [], Inr []]"
    by (simp add: state_S_def readings_S_def price_S_def alert_S_def check_alerts_def
         get_active_alerts_def alert_check_def quote_price_def mark_triggered_def
         mk_alert_msg_def last50_def)
qed

theorem check_alerts_fires_at_most_once_witness:
  "distinct (map alert_id (stock_alerts state_S)) \<and>
   count_list (map ev_id (returned_events (fst (check_alerts_calls readings_S state_S)))) 1 \<le> 1"
  using check_alerts_fires_at_most_once [of state_S readings_S 1]
  by (simp add: state_S_def alert_S_def active_ids_def)

lemma check_alerts_keeps:
  assumes d: "distinct (map alert_id (stock_alerts st))"
    and r: "r \<in> set (stock_alerts st)"
    and q: "\<forall>a\<in>set (get_active_alerts (stock_alerts st)).
               alert_id a = alert_id r \<longrightarrow> alert_check qs a = Inr None"
  shows "r \<in> set (stock_alerts (snd (check_alerts now qs st))) \<and>
         (\<forall>evs. fst (check_alerts now qs st) = Inr evs \<longrightarrow> alert_id r \<notin> ev_id ` set evs)"
proof (cases "get_active_alerts (stock_alerts st) = []")
  case True
  then have "check_alerts now qs st = (Inr [], st)" by (simp add: check_alerts_def)
  with r show ?thesis by simp
next
  case False
  show ?thesis
  proof (cases "check_loop now qs (get_active_alerts (stock_alerts st)) (stock_alerts st) []")
    case (Inl e)
    with False have "check_alerts now qs st = (Inl e, st)" by (simp add: check_alerts_def)
    with r show ?thesis by simp
  next
    case (Inr pr)
    obtain tbl newly where pr: "pr = (tbl, newly)" by (cases pr)
    from check_loop_keeps [OF Inr [unfolded pr] r q]
    have k: "r \<in> set tbl" "\<forall>e\<in>set newly. ev_id e \<noteq> alert_id r" by simp_all
    from False Inr pr have
      "fst (check_alerts now qs st) = Inr newly" "stock_alerts (snd (check_alerts now qs st)) = tbl"
      by (simp_all add: check_alerts_def)
    with k show ?thesis by auto
  qed
qed

lemma alert_check_nonpositive:
  assumes "qs (stock_id a) = Some q"
    and "map_of q ''price'' = None \<or> (\<exists>p. map_of q ''price'' = Some (PNum p) \<and> p \<le> 0)"
  shows "alert_check qs a = Inr None"
  using assms by (auto simp: alert_check_def quote_price_def)

text \<open>
  Claim C9. If the quote of an active alert's symbol has no \<open>price\<close> entry or a price
  less than or equal to 0, \<open>check_alerts\<close> returns no event for that alert and the alert is
  still among the active alerts afterwards, whatever its type and target (ids being unique).
\<close>

theorem nonpositive_price_never_triggers:
  assumes d: "distinct (map alert_id (stock_alerts st))"
    and a: "a \<in> set (stock_alerts st)" "is_triggered a = 0"
    and q: "qs (stock_id a) = Some q"
    and p: "map_of q ''price'' = None \<or> (\<exists>p. map_of q ''price'' = Some (PNum p) \<and> p \<le> 0)"
  shows "a \<in> set (get_active_alerts (stock_alerts (snd (check_alerts now qs st)))) \<and>
         (\<forall>evs. fst (check_alerts now qs st) = Inr evs \<longrightarrow> alert_id a \<notin> ev_id ` set evs)"
proof -
  have n: "alert_check qs a = Inr None" using q p by (rule alert_check_nonpositive)
  have "\<forall>b\<in>set (get_active_alerts (stock_alerts st)).
               alert_id b = alert_id a \<longrightarrow> alert_check qs b = Inr None"
  proof (intro ballI impI)
    fix b assume "b \<in> set (get_active_alerts (stock_alerts st))" "alert_id b = alert_id a"
    then have "b \<in> set (stock_alerts st)" by (simp add: set_get_active_alerts)
    with d a(1) \<open>alert_id b = alert_id a\<close> have "b = a" using same_id_same_row by blast
    with n show "alert_check qs b = Inr None" by simp
  qed
  from check_alerts_keeps [OF d a(1) this, of now] a(2) show ?thesis
    by (simp add: set_get_active_alerts)
qed

theorem nonpositive_price_never_triggers_witness:
  "distinct (map alert_id (stock_alerts state_low)) \<and> alert_low \<in> set (stock_alerts state_low) \<and>
   is_triggered alert_low = 0 \<and>
   price_S (- 5) (stock_id alert_low) = Some [(''price'', PNum (- 5))] \<and>
   map_of [(''price'', PNum (- 5))] ''price'' = Some (PNum (- 5)) \<and>
   alert_type alert_low = ''below'' \<and> - 5 \<le> target_price alert_low \<and>
   alert_low \<in> set (get_active_alerts (stock_alerts (snd (check_alerts 1 (price_S (- 5)) state_low)))) \<and>
   fst (check_alerts 1 (price_S (- 5)) state_low) = Inr []"
proof -
  have 1: "distinct (map alert_id (stock_alerts state_low))"
    by (simp add: state_low_def)
  have 2: "alert_low \<in> set (stock_alerts state_low)"
    by (simp add: state_low_def)
  have 3: "is_triggered alert_low = 0" by (simp add: alert_low_def)
  have 4: "price_S (- 5) (stock_id alert_low) = Some [(''price'', PNum (- 5))]"
    by (simp add: price_S_def alert_low_def)
  have 5: "map_of [(''price'', PNum (- 5))] ''price'' = None \<or>
     (\<exists>p. map_of [(''price'', PNum (- 5))] ''price'' = Some (PNum p) \<and> p \<le> 0)"
    by simp
  have 6: "alert_type alert_low = ''below'' \<and> - 5 \<le> target_price alert_low"
    by (simp add: alert_low_def)
  have 7: "fst (check_alerts 1 (price_S (- 5)) state_low) = Inr []"
    by (simp add: state_low_def price_S_def alert_low_def check_alerts_def
         get_active_alerts_def alert_check_def quote_price_def)
  from nonpositive_price_never_triggers
         [of state_low alert_low "price_S (- 5)" "[(''price'', PNum (- 5))]" 1, OF 1 2 3 4 5]
       1 2 3 4 6 7
  show ?thesis by simp
qed

text \<open>
  Claim C5, as the code has it. The marking write is keyed on the id alone: it sets
  \<open>is_triggered\<close> and \<open>triggered_at\<close> on every row with that id, whatever its
  \<open>is_triggered\<close>. What protects a triggered alert is the read: \<open>check_alerts\<close> writes
  only rows that \<open>get_active_alerts\<close> returned to it, so (ids being unique) a row that is
  already triggered when the call starts is still in the table unchanged after the call and
  no event of the call carries its id.
\<close>

theorem triggered_row_left_alone:
  "(r \<in> set tbl \<and> alert_id r = i \<longrightarrow>
      r\<lparr>is_triggered := 1, triggered_at := Some now\<rparr> \<in> set (mark_triggered now i tbl)) \<and>
   (distinct (map alert_id (stock_alerts st)) \<and> r \<in> set (stock_alerts st) \<and> is_triggered r \<noteq> 0 \<longrightarrow>
      r \<in> set (stock_alerts (snd (check_alerts now qs st))) \<and>
      (\<forall>evs. fst (check_alerts now qs st) = Inr evs \<longrightarrow> alert_id r \<notin> ev_id ` set evs))"
proof (intro conjI impI)
  assume "r \<in> set tbl \<and> alert_id r = i"
  then show "r\<lparr>is_triggered := 1, triggered_at := Some now\<rparr> \<in> set (mark_triggered now i tbl)"
    by (auto simp: mark_triggered_def image_iff intro!: bexI [of _ r])
next
  assume h: "distinct (map alert_id (stock_alerts st)) \<and> r \<in> set (stock_alerts st) \<and> is_triggered r \<noteq> 0"
  have "\<forall>b\<in>set (get_active_alerts (stock_alerts st)).
               alert_id b = alert_id r \<longrightarrow> alert_check qs b = Inr None"
  proof (intro ballI impI)
    fix b assume b: "b \<in> set (get_active_alerts (stock_alerts st))" "alert_id b = alert_id r"
    then have "b \<in> set (stock_alerts st)" "is_triggered b = 0" by (simp_all add: set_get_active_alerts)
    with h b(2) have "b = r" using same_id_same_row by blast
    with h \<open>is_triggered b = 0\<close> show "alert_check qs b = Inr None" by simp
  qed
  with h check_alerts_keeps [of st r qs now]
  show "r \<in> set (stock_alerts (snd (check_alerts now qs st)))"
    and "\<forall>evs. fst (check_alerts now qs st) = Inr evs \<longrightarrow> alert_id r \<notin> ev_id ` set evs"
    by blast+
qed

theorem triggered_row_left_alone_witness:
  "triggered_S \<in> set [triggered_S] \<and> alert_id triggered_S = 1 \<and> is_triggered triggered_S = 1 \<and>
   distinct (map alert_id (stock_alerts state_triggered_S)) \<and>
   triggered_S\<lparr>is_triggered := 1, triggered_at := Some 20\<rparr> \<in> set (mark_triggered 20 1 [triggered_S]) \<and>
   triggered_S \<in> set (stock_alerts (snd (check_alerts 20 (price_S 1001) state_triggered_S))) \<and>
   fst (check_alerts 20 (price_S 1001) state_triggered_S) = Inr []"
proof -
  have 1: "fst (check_alerts 20 (price_S 1001) state_triggered_S) = Inr []"
    by (simp add: state_triggered_S_def triggered_S_def alert_S_def check_alerts_def
         get_active_alerts_def)
  from triggered_row_left_alone [of triggered_S "[triggered_S]" 1 20 state_triggered_S "price_S 1001"] 1
  show ?thesis
    by (simp add: state_triggered_S_def triggered_S_def alert_S_def)
qed

text \<open>
  The write is not condition-checked: applied to an already triggered row it replaces
  \<open>triggered_at\<close>, and a loop that still holds the alert in its list of active alerts
  (read before another evaluation marked it) appends a second trigger event.
\<close>

theorem marking_write_unconditional_counterexample:
  "mark_triggered 20 1 [triggered_S] \<noteq> [triggered_S] \<and>
   check_loop 20 (price_S 1001) [alert_S] [triggered_S] []
     = Inr ([alert_S\<lparr>is_triggered := 1, triggered_at := Some 20\<rparr>], [mk_alert_msg 20 alert_S 1001])"
  by (simp add: mark_triggered_def triggered_S_def alert_S_def price_S_def alert_check_def
       quote_price_def mk_alert_msg_def)

section \<open>Properties of the quote worker\<close>

subsection \<open>Trading hours\<close>

lemma parse_config:
  "parse_hm ''08:30'' = Inr (8, 30)" "parse_hm ''09:00'' = Inr (9, 0)"
  "parse_hm ''13:30'' = Inr (13, 30)" "parse_hm ''13:40'' = Inr (13, 40)"
  "parse_hm ''14:30'' = Inr (14, 30)"
  by (simp_all add: parse_hm_def py_int_def digit_of_def)

lemma window_config:
  "window ''08:30'' ''09:00'' = Some (t0830, t0900)"
  "window ''09:00'' ''13:30'' = Some (t0900, t1330)"
  "window ''13:40'' ''14:30'' = Some (t1340, t1430)"
  by (simp_all add: window_def parse_config mk_time_def t0830_def t0900_def t1330_def t1340_def t1430_def)

lemma sessions_loop_closed:
  "list_all (\<lambda>(session_name, start_str, end_str). window start_str end_str \<noteq> None) ss \<Longrightarrow>
     sessions_loop ss now = Inr (in_closed_window ss now)"
proof (induction ss)
  case Nil
  then show ?case by (simp add: in_closed_window_def)
next
  case (Cons x ss)
  obtain n s e where x: "x = (n, s, e)" by (cases x)
  from Cons.prems x obtain t1 t2 where w: "window s e = Some (t1, t2)" by auto
  then obtain h1 m1 h2 m2 where
    p: "parse_hm s = Inr (h1, m1)" "parse_hm e = Inr (h2, m2)"
       "mk_time h1 m1 = Inr t1" "mk_time h2 m2 = Inr t2"
    by (auto simp: window_def split: sum.splits prod.splits)
  from Cons.prems have "list_all (\<lambda>(session_name, start_str, end_str). window start_str end_str \<noteq> None) ss"
    by simp
  from Cons.IH [OF this] have ih: "sessions_loop ss now = Inr (in_closed_window ss now)" .
  have c: "in_closed_window ((n, s, e) # ss) now = ((time_le t1 now \<and> time_le now t2) \<or> in_closed_window ss now)"
    by (simp add: in_closed_window_def w)
  show ?case
    by (simp add: x p ih c)
qed

lemma is_trading_time_config: "is_trading_time now = Inr (in_closed_window TRADING_SESSIONS now)"
  unfolding is_trading_time_def
  by (rule sessions_loop_closed) (simp add: TRADING_SESSIONS_def window_config)

lemma in_closed_window_config:
  "in_closed_window TRADING_SESSIONS now =
    (time_le t0830 now \<and> time_le now t0900 \<or> time_le t0900 now \<and> time_le now t1330 \<or>
     time_le t1340 now \<and> time_le now t1430)"
  by (simp add: in_closed_window_def TRADING_SESSIONS_def window_config)

text \<open>
  Claim C4, as the code has it. Every session window is the closed interval from its start
  to its end: for sessions whose times are well formed the loop answers true exactly when
  the current time \<open>t\<close> has \<open>start \<le> t \<le> end\<close> for some window, and with the configured
  sessions \<open>is_trading_time\<close> is true exactly from 08:30 to 13:30 and from 13:40 to 14:30,
  both ends included. A time equal to a window's end is inside that window.
\<close>

theorem is_trading_time_closed_windows:
  "(list_all (\<lambda>(session_name, start_str, end_str). window start_str end_str \<noteq> None) ss \<longrightarrow>
      sessions_loop ss now = Inr (in_closed_window ss now)) \<and>
   is_trading_time now =
     Inr (time_le t0830 now \<and> time_le now t0900 \<or> time_le t0900 now \<and> time_le now t1330 \<or>
          time_le t1340 now \<and> time_le now t1430)"
  using sessions_loop_closed [of ss now] is_trading_time_config [of now]
    in_closed_window_config [of now]
  by simp

theorem is_trading_time_closed_windows_witness:
  "window ''08:30'' ''09:00'' = Some (t0830, t0900) \<and>
   window ''09:00'' ''13:30'' = Some (t0900, t1330) \<and>
   window ''13:40'' ''14:30'' = Some (t1340, t1430) \<and>
   sessions_loop TRADING_SESSIONS t1330 = Inr (in_closed_window TRADING_SESSIONS t1330) \<and>
   is_trading_time t1330 = Inr True \<and>
   is_trading_time (t1330\<lparr>microsecond := 1\<rparr>) = Inr False"
proof -
  have w: "list_all (\<lambda>(session_name, start_str, end_str). window start_str end_str \<noteq> None)
             TRADING_SESSIONS"
    by (simp add: TRADING_SESSIONS_def window_config)
  have 1: "sessions_loop TRADING_SESSIONS t1330 = Inr (in_closed_window TRADING_SESSIONS t1330)"
    using is_trading_time_closed_windows [of TRADING_SESSIONS t1330] w by simp
  have 2: "is_trading_time t1330 = Inr True"
    using is_trading_time_closed_windows [of TRADING_SESSIONS t1330]
    by (simp add: time_le_def t0830_def t0900_def t1330_def t1340_def t1430_def)
  have 3: "is_trading_time (t1330\<lparr>microsecond := 1\<rparr>) = Inr False"
    using is_trading_time_closed_windows [of TRADING_SESSIONS "t1330\<lparr>microsecond := 1\<rparr>"]
    by (simp add: time_le_def t0830_def t0900_def t1330_def t1340_def t1430_def)
  from 1 2 3 show ?thesis by (simp add: window_config)
qed

text \<open>
  At 13:30:00 exactly, the end of the \<open>market\<close> session, the gate is open although no
  configured window taken as a half-open interval holds that time.
\<close>

theorem window_end_is_inside_counterexample:
  "is_trading_time t1330 = Inr True \<and> \<not> in_half_open_window TRADING_SESSIONS t1330"
proof
  show "is_trading_time t1330 = Inr True"
    by (simp add: is_trading_time_config in_closed_window_config time_le_def
         t0830_def t0900_def t1330_def t1340_def t1430_def)
  show "\<not> in_half_open_window TRADING_SESSIONS t1330"
    by (simp add: in_half_open_window_def TRADING_SESSIONS_def window_config
         time_less_def time_le_def t0830_def t0900_def t1330_def t1340_def t1430_def)
qed

subsection \<open>Reconnecting\<close>

lemma sleeps_append: "sleeps (xs @ ys) = sleeps xs @ sleeps ys"
  by (induction xs rule: sleeps.induct) simp_all

lemma attempts_append: "attempts (xs @ ys) = attempts xs + attempts ys"
  by (simp add: attempts_def)

lemma sleeps_wait_loop_attempts: "attempts (wait_loop ready is) = 0"
  by (induction "is") (simp_all add: attempts_def)

lemma reconnect_failing:
  assumes "failing out"
  shows "fst (reconnect out w) = False"
    and "retry_count (snd (reconnect out w)) = Suc (retry_count w)"
    and "is_connected (snd (reconnect out w)) = False"
    and "sleeps (trace (snd (reconnect out w))) =
           sleeps (trace w) @ (if retry_count w < 10 then [retry_delays ! retry_count w] else [])"
    and "attempts (trace (snd (reconnect out w))) =
           attempts (trace w) + (if retry_count w < 10 then 1 else 0)"
  using assms
  by (cases out; simp add: reconnect_def disconnect_def connect_def max_retry_def Let_def
        sleeps_append attempts_def retry_delays_def min_def)+

lemma reconnect_exhausted:
  assumes "max_retry \<le> retry_count w"
  shows "reconnect out w =
     (False, w\<lparr>is_connected := False, subscribed_stocks := {},
               retry_count := Suc (retry_count w),
               trace := trace w @ (if api_set w \<and> is_connected w then [ApiLogout] else [])\<rparr>)"
  using assms by (simp add: reconnect_def disconnect_def max_retry_def Let_def)

lemma reconnects_failing:
  "list_all failing outs \<Longrightarrow>
     fst (reconnects outs w) = replicate (length outs) False \<and>
     retry_count (snd (reconnects outs w)) = retry_count w + length outs \<and>
     sleeps (trace (snd (reconnects outs w))) =
       sleeps (trace w) @ take (length outs) (drop (retry_count w) retry_delays) \<and>
     attempts (trace (snd (reconnects outs w))) =
       attempts (trace w) + min (length outs) (10 - retry_count w)"
proof (induction outs arbitrary: w)
  case Nil
  then show ?case by simp
next
  case (Cons out outs)
  obtain r w1 where s1: "reconnect out w = (r, w1)" by (cases "reconnect out w")
  obtain rs w2 where s2: "reconnects outs w1 = (rs, w2)" by (cases "reconnects outs w1")
  from Cons.prems have f: "failing out" and fs: "list_all failing outs" by simp_all
  from reconnect_failing [OF f, of w] s1 have
    1: "r = False" "retry_count w1 = Suc (retry_count w)"
       "sleeps (trace w1) = sleeps (trace w) @ (if retry_count w < 10 then [retry_delays ! retry_count w] else [])"
       "attempts (trace w1) = attempts (trace w) + (if retry_count w < 10 then 1 else 0)"
    by simp_all
  from Cons.IH [OF fs, of w1] s2 have
    2: "rs = replicate (length outs) False"
       "retry_count w2 = retry_count w1 + length outs"
       "sleeps (trace w2) = sleeps (trace w1) @ take (length outs) (drop (retry_count w1) retry_delays)"
       "attempts (trace w2) = attempts (trace w1) + min (length outs) (10 - retry_count w1)"
    by simp_all
  have len: "length retry_delays = 10" by (simp add: retry_delays_def)
  have d: "take (Suc (length outs)) (drop (retry_count w) retry_delays) =
      (if retry_count w < 10 then [retry_delays ! retry_count w] else []) @
        take (length outs) (drop (Suc (retry_count w)) retry_delays)"
  proof (cases "retry_count w < 10")
    case True
    then have "drop (retry_count w) retry_delays =
        retry_delays ! retry_count w # drop (Suc (retry_count w)) retry_delays"
      using len by (simp add: Cons_nth_drop_Suc)
    with True show ?thesis by simp
  next
    case False
    with len show ?thesis by simp
  qed
  have run: "reconnects (out # outs) w = (r # rs, w2)" by (simp add: s1 s2)
  have a: "fst (reconnects (out # outs) w) = replicate (length (out # outs)) False"
    unfolding run by (simp add: 1 2)
  have b: "retry_count (snd (reconnects (out # outs) w)) = retry_count w + length (out # outs)"
    unfolding run by (simp add: 1 2)
  have c: "sleeps (trace (snd (reconnects (out # outs) w))) =
       sleeps (trace w) @ take (length (out # outs)) (drop (retry_count w) retry_delays)"
    unfolding run using d by (simp add: 1 2)
  have e: "attempts (trace (snd (reconnects (out # outs) w))) =
       attempts (trace w) + min (length (out # outs)) (10 - retry_count w)"
    unfolding run by (auto simp: 1 2 min_def)
  from a b c e show ?case by blast
qed

lemma reconnects_failing_state:
  "list_all failing outs \<Longrightarrow> outs \<noteq> [] \<Longrightarrow>
     \<not> is_connected (snd (reconnects outs w)) \<and> subscribed_stocks (snd (reconnects outs w)) = {}"
proof (induction outs arbitrary: w)
  case Nil
  then show ?case by simp
next
  case (Cons out outs)
  obtain r w1 where s1: "reconnect out w = (r, w1)" by (cases "reconnect out w")
  obtain rs w2 where s2: "reconnects outs w1 = (rs, w2)" by (cases "reconnects outs w1")
  from Cons.prems have f: "failing out" and fs: "list_all failing outs" by simp_all
  have w1: "\<not> is_connected w1 \<and> subscribed_stocks w1 = {}"
    using f s1 by (cases out; simp add: reconnect_def disconnect_def connect_def Let_def split: if_splits; auto)
  show ?case
  proof (cases "outs = []")
    case True
    with w1 s1 show ?thesis by simp
  next
    case False
    from Cons.IH [OF fs False, of w1] s2 show ?thesis by (simp add: s1)
  qed
qed

lemma store_loop_keeps:
  "is_connected (snd (store_loop now now_str vs ss results w)) = is_connected w \<and>
   retry_count (snd (store_loop now now_str vs ss results w)) = retry_count w \<and>
   api_set (snd (store_loop now now_str vs ss results w)) = api_set w \<and>
   trace (snd (store_loop now now_str vs ss results w)) = trace w"
proof (induction ss arbitrary: vs results w)
  case Nil
  show ?case by simp
next
  case (Cons s ss)
  show ?case
  proof (cases vs)
    case Nil
    then show ?thesis by simp
  next
    case vs: (Cons v vs')
    obtain sid c where v: "v = (sid, c)" by (cases v)
    show ?thesis
    proof (cases "build_data now_str sid c s")
      case (Inl e)
      then show ?thesis by (simp add: vs v)
    next
      case (Inr data)
      let ?w = "w\<lparr>heap := cache_put (cache w) sid (length (heap w)) (heap w @ [Inner data]),
                   last_update := Some now\<rparr>"
      have step: "store_loop now now_str vs (s # ss) results w =
          store_loop now now_str vs' ss (results(sid \<mapsto> length (heap w))) ?w"
        by (simp add: vs v Inr Let_def)
      let ?r = "results(sid \<mapsto> length (heap w))"
      have ih: "is_connected (snd (store_loop now now_str vs' ss ?r ?w)) = is_connected ?w \<and>
           retry_count (snd (store_loop now now_str vs' ss ?r ?w)) = retry_count ?w \<and>
           api_set (snd (store_loop now now_str vs' ss ?r ?w)) = api_set ?w \<and>
           trace (snd (store_loop now now_str vs' ss ?r ?w)) = trace ?w"
        by (rule Cons.IH)
      have same: "is_connected ?w = is_connected w" "retry_count ?w = retry_count w"
           "api_set ?w = api_set w" "trace ?w = trace w"
        by simp_all
      show ?thesis
        unfolding step using ih unfolding same .
    qed
  qed
qed

lemma fetch_snapshots_keeps:
  "is_connected (snd (fetch_snapshots api now now_str stock_ids w)) = is_connected w \<and>
   retry_count (snd (fetch_snapshots api now now_str stock_ids w)) = retry_count w"
proof -
  let ?vs = "resolve_loop (stocks api) stock_ids"
  have t: "is_connected (snd (fetch_try api now now_str stock_ids w)) = is_connected w \<and>
      retry_count (snd (fetch_try api now now_str stock_ids w)) = retry_count w"
  proof (cases "?vs = []")
    case True
    then show ?thesis by (simp add: fetch_try_def)
  next
    case False
    show ?thesis
    proof (cases "snapshots api (map snd ?vs)")
      case (Inl e)
      with False show ?thesis by (simp add: fetch_try_def)
    next
      case (Inr snaps)
      with False have "fetch_try api now now_str stock_ids w = store_loop now now_str ?vs snaps Map.empty w"
        by (simp add: fetch_try_def)
      then show ?thesis using store_loop_keeps [of now now_str ?vs snaps Map.empty w] by simp
    qed
  qed
  obtain r w' where f: "fetch_try api now now_str stock_ids w = (r, w')"
    by (cases "fetch_try api now now_str stock_ids w")
  with t have "is_connected w' = is_connected w \<and> retry_count w' = retry_count w" by simp
  with f show ?thesis
    by (cases r) (simp_all add: fetch_snapshots_def)
qed

lemma reachable_counter:
  "reachable w \<Longrightarrow> is_connected w \<longrightarrow> retry_count w = 0"
proof (induction rule: reachable.induct)
  case init
  show ?case by (simp add: worker_init_def)
next
  case (connect w out)
  then show ?case by (cases out) (simp_all add: connect_def)
next
  case (disconnect w)
  show ?case by (simp add: disconnect_def)
next
  case (reconnect w out)
  show ?case
    by (cases out) (simp_all add: reconnect_def disconnect_def connect_def Let_def)
next
  case (fetch w api now now_str stock_ids)
  then show ?case using fetch_snapshots_keeps [of api now now_str stock_ids w] by simp
qed

lemma connect_resets:
  "reachable v \<Longrightarrow> fst (connect out v) \<Longrightarrow> retry_count (snd (connect out v)) = 0"
  using reachable_counter [of v]
  by (cases out) (auto simp: connect_def split: if_splits)

lemma reconnect_resets:
  "fst (reconnect out v) \<Longrightarrow> retry_count (snd (reconnect out v)) = 0"
  by (cases out) (auto simp: reconnect_def disconnect_def connect_def Let_def split: if_splits)

text \<open>
  Claim C2. From retry counter 0, consecutive failing \<open>reconnect\<close> calls all return
  failure and sleep the delays 5, 10, 15, 30, 60, 60, 120, 120, 300, 300 in that order, one
  connection attempt each; from the eleventh call on, \<open>reconnect\<close> returns failure
  whatever the quoting source would answer, and changes nothing but the counter: no sleep
  and no connection attempt. A \<open>connect\<close> that succeeds, in any state the worker can
  reach, and a \<open>reconnect\<close> that succeeds leave the retry counter at 0.
\<close>

theorem reconnect_backoff:
  "(retry_count w = 0 \<and> list_all failing outs \<longrightarrow>
      fst (reconnects outs w) = replicate (length outs) False \<and>
      sleeps (trace (snd (reconnects outs w))) =
        sleeps (trace w) @ take (length outs) [5, 10, 15, 30, 60, 60, 120, 120, 300, 300] \<and>
      attempts (trace (snd (reconnects outs w))) = attempts (trace w) + min (length outs) 10 \<and>
      (10 \<le> length outs \<longrightarrow>
         reconnect out (snd (reconnects outs w)) =
           (False, (snd (reconnects outs w))\<lparr>retry_count := Suc (length outs)\<rparr>))) \<and>
   (reachable v \<and> fst (connect out v) \<longrightarrow> retry_count (snd (connect out v)) = 0) \<and>
   (fst (reconnect out v) \<longrightarrow> retry_count (snd (reconnect out v)) = 0)"
proof (intro conjI impI)
  assume h: "retry_count w = 0 \<and> list_all failing outs"
  let ?w = "snd (reconnects outs w)"
  from h reconnects_failing [of outs w] have
    r: "fst (reconnects outs w) = replicate (length outs) False"
       "retry_count ?w = length outs"
       "sleeps (trace ?w) = sleeps (trace w) @ take (length outs) retry_delays"
       "attempts (trace ?w) = attempts (trace w) + min (length outs) 10"
    by simp_all
  show "fst (reconnects outs w) = replicate (length outs) False" by (rule r(1))
  show "sleeps (trace ?w) =
        sleeps (trace w) @ take (length outs) [5, 10, 15, 30, 60, 60, 120, 120, 300, 300]"
    using r(3) by (simp add: retry_delays_def)
  show "attempts (trace ?w) = attempts (trace w) + min (length outs) 10" by (rule r(4))
  assume l: "10 \<le> length outs"
  then have "outs \<noteq> []" by auto
  with h reconnects_failing_state [of outs w] have
    s: "\<not> is_connected ?w" "subscribed_stocks ?w = {}" by simp_all
  from l r(2) have "max_retry \<le> retry_count ?w" by (simp add: max_retry_def)
  from reconnect_exhausted [OF this, of out] s r(2)
  show "reconnect out ?w = (False, ?w\<lparr>retry_count := Suc (length outs)\<rparr>)"
    by simp
next
  assume "reachable v \<and> fst (connect out v)"
  then show "retry_count (snd (connect out v)) = 0" using connect_resets by blast
next
  assume "fst (reconnect out v)"
  then show "retry_count (snd (reconnect out v)) = 0" by (rule reconnect_resets)
qed

theorem reconnect_backoff_witness:
  "retry_count worker_init = 0 \<and>
   fst (reconnects (replicate 12 LoginRaises) worker_init) = replicate 12 False \<and>
   sleeps (trace (snd (reconnects (replicate 12 LoginRaises) worker_init))) =
     [5, 10, 15, 30, 60, 60, 120, 120, 300, 300] \<and>
   attempts (trace (snd (reconnects (replicate 12 LoginRaises) worker_init))) = 10 \<and>
   fst (reconnect (LoginOk (\<lambda>i. True)) (snd (reconnects (replicate 12 LoginRaises) worker_init))) = False \<and>
   fst (connect (LoginOk (\<lambda>i. True)) worker_init) \<and>
   retry_count (snd (connect (LoginOk (\<lambda>i. True)) worker_init)) = 0"
proof -
  have 1: "retry_count worker_init = 0" "trace worker_init = []" "\<not> is_connected worker_init"
    by (simp_all add: worker_init_def)
  have 2: "list_all failing (replicate 12 LoginRaises)" by (simp add: list_all_iff)
  have 3: "fst (connect (LoginOk (\<lambda>i. True)) worker_init)"
    using 1 by (simp add: connect_def)
  from reconnect_backoff [of worker_init "replicate 12 LoginRaises" "LoginOk (\<lambda>i. True)" worker_init]
    1 2 3 reachable.init
  show ?thesis by (simp add: attempts_def)
qed

subsection \<open>Fetching snapshots\<close>

lemma resolve_loop_ids:
  "fst ` set (resolve_loop look sids) = {sid \<in> set sids. \<exists>c. look sid = LookupOk c}"
proof (induction sids)
  case Nil
  show ?case by simp
next
  case (Cons sid sids)
  show ?case
  proof (cases "look sid")
    case LookupRaises
    with Cons show ?thesis by auto
  next
    case LookupFalsy
    with Cons show ?thesis by auto
  next
    case (LookupOk c)
    with Cons show ?thesis by auto
  qed
qed

lemma store_loop_dom:
  "fst (store_loop now now_str vs ss results w) = Inr res \<Longrightarrow>
     dom res \<subseteq> dom results \<union> fst ` set vs"
proof (induction ss arbitrary: vs results w)
  case Nil
  then show ?case by auto
next
  case (Cons s ss)
  show ?case
  proof (cases vs)
    case Nil
    with Cons.prems show ?thesis by simp
  next
    case vs: (Cons v vs')
    obtain sid c where v: "v = (sid, c)" by (cases v)
    show ?thesis
    proof (cases "build_data now_str sid c s")
      case (Inl e)
      with Cons.prems show ?thesis by (simp add: vs v)
    next
      case (Inr data)
      let ?w = "w\<lparr>heap := cache_put (cache w) sid (length (heap w)) (heap w @ [Inner data]),
                   last_update := Some now\<rparr>"
      let ?r = "results(sid \<mapsto> length (heap w))"
      have step: "store_loop now now_str vs (s # ss) results w = store_loop now now_str vs' ss ?r ?w"
        by (simp add: vs v Inr Let_def)
      with Cons.prems have "fst (store_loop now now_str vs' ss ?r ?w) = Inr res" by simp
      then have "dom res \<subseteq> dom ?r \<union> fst ` set vs'" by (rule Cons.IH)
      then show ?thesis by (auto simp: vs v)
    qed
  qed
qed

lemma store_loop_all:
  "list_all2 (\<lambda>(sid, c) s. \<exists>d. build_data now_str sid c s = Inr d) vs ss \<Longrightarrow>
     \<exists>res. fst (store_loop now now_str vs ss results w) = Inr res \<and>
           dom res = dom results \<union> fst ` set vs"
proof (induction ss arbitrary: vs results w)
  case Nil
  then show ?case by simp
next
  case (Cons s ss)
  from Cons.prems obtain v vs' where vs: "vs = v # vs'"
    and hd: "(\<lambda>(sid, c) s. \<exists>d. build_data now_str sid c s = Inr d) v s"
    and tl: "list_all2 (\<lambda>(sid, c) s. \<exists>d. build_data now_str sid c s = Inr d) vs' ss"
    by (auto simp: list_all2_Cons2)
  obtain sid c where v: "v = (sid, c)" by (cases v)
  from hd v obtain data where d: "build_data now_str sid c s = Inr data" by auto
  let ?w = "w\<lparr>heap := cache_put (cache w) sid (length (heap w)) (heap w @ [Inner data]),
               last_update := Some now\<rparr>"
  let ?r = "results(sid \<mapsto> length (heap w))"
  have step: "store_loop now now_str vs (s # ss) results w = store_loop now now_str vs' ss ?r ?w"
    by (simp add: vs v d Let_def)
  from tl have "\<exists>res. fst (store_loop now now_str vs' ss ?r ?w) = Inr res \<and>
           dom res = dom ?r \<union> fst ` set vs'" by (rule Cons.IH)
  then obtain res where "fst (store_loop now now_str vs' ss ?r ?w) = Inr res"
    "dom res = dom ?r \<union> fst ` set vs'" by blast
  then have "fst (store_loop now now_str vs (s # ss) results w) = Inr res \<and>
      dom res = dom results \<union> fst ` set vs"
    unfolding step by (auto simp: vs v)
  then show ?case by blast
qed

lemma fetch_try_dom:
  "fst (fetch_try api now now_str stock_ids w) = Inr res \<Longrightarrow>
     dom res \<subseteq> {sid \<in> set stock_ids. \<exists>c. stocks api sid = LookupOk c}"
proof -
  assume a: "fst (fetch_try api now now_str stock_ids w) = Inr res"
  let ?vs = "resolve_loop (stocks api) stock_ids"
  show ?thesis
  proof (cases "?vs = []")
    case True
    with a show ?thesis by (auto simp: fetch_try_def)
  next
    case False
    show ?thesis
    proof (cases "snapshots api (map snd ?vs)")
      case (Inl e)
      with False a show ?thesis by (simp add: fetch_try_def)
    next
      case (Inr snaps)
      with False a have "fst (store_loop now now_str ?vs snaps Map.empty w) = Inr res"
        by (simp add: fetch_try_def)
      then have "dom res \<subseteq> dom (Map.empty :: string \<rightharpoonup> addr) \<union> fst ` set ?vs"
        by (rule store_loop_dom)
      then show ?thesis by (simp add: resolve_loop_ids)
    qed
  qed
qed

lemma fetch_snapshots_cases:
  "fst (fetch_snapshots api now now_str stock_ids w) =
     (if \<not> is_connected w \<or> \<not> api_set w then Map.empty
      else (case fst (fetch_try api now now_str stock_ids w) of
              Inl e \<Rightarrow> Map.empty | Inr res \<Rightarrow> res))"
proof -
  obtain r w' where f: "fetch_try api now now_str stock_ids w = (r, w')"
    by (cases "fetch_try api now now_str stock_ids w")
  show ?thesis by (cases r) (simp_all add: fetch_snapshots_def f)
qed

lemma build_demo: "\<exists>d. build_data ''09:00:15'' ''2330'' \<lparr>contract_name = ''TSMC''\<rparr> snap_demo = Inr d"
  by (simp add: build_data_def snap_demo_def vwap_of_def getattr0_def or0_def Let_def)

text \<open>
  Claim C6. \<open>fetch_snapshots\<close> always returns a map and never an exception: the keys of
  the map are requested symbols whose contract lookup succeeded (a symbol whose lookup
  raises or gives nothing is left out); called while disconnected or without an API
  object it returns the empty map; every exception of its \<open>try\<close> block, the snapshot call
  failing among them, gives the empty map; and when the source returns a usable snapshot
  for each resolved contract, the map has exactly the resolved symbols, so a symbol that
  fails to resolve does not abort the others.
\<close>

theorem fetch_snapshots_partial_map:
  "dom (fst (fetch_snapshots api now now_str stock_ids w))
     \<subseteq> {sid \<in> set stock_ids. \<exists>c. stocks api sid = LookupOk c} \<and>
   (\<not> is_connected w \<or> \<not> api_set w \<longrightarrow>
      fst (fetch_snapshots api now now_str stock_ids w) = Map.empty) \<and>
   (fst (fetch_try api now now_str stock_ids w) = Inl e \<longrightarrow>
      fst (fetch_snapshots api now now_str stock_ids w) = Map.empty) \<and>
   (is_connected w \<and> api_set w \<and>
    snapshots api (map snd (resolve_loop (stocks api) stock_ids)) = Inr snaps \<and>
    list_all2 (\<lambda>(sid, c) s. \<exists>d. build_data now_str sid c s = Inr d)
      (resolve_loop (stocks api) stock_ids) snaps \<longrightarrow>
      dom (fst (fetch_snapshots api now now_str stock_ids w))
        = {sid \<in> set stock_ids. \<exists>c. stocks api sid = LookupOk c})"
proof (intro conjI impI)
  show "dom (fst (fetch_snapshots api now now_str stock_ids w))
     \<subseteq> {sid \<in> set stock_ids. \<exists>c. stocks api sid = LookupOk c}"
  proof (cases "fst (fetch_try api now now_str stock_ids w)")
    case (Inl e)
    then show ?thesis by (simp add: fetch_snapshots_cases)
  next
    case (Inr res)
    from fetch_try_dom [OF this] Inr show ?thesis by (simp add: fetch_snapshots_cases)
  qed
next
  assume "\<not> is_connected w \<or> \<not> api_set w"
  then show "fst (fetch_snapshots api now now_str stock_ids w) = Map.empty"
    by (simp add: fetch_snapshots_cases)
next
  assume "fst (fetch_try api now now_str stock_ids w) = Inl e"
  then show "fst (fetch_snapshots api now now_str stock_ids w) = Map.empty"
    by (simp add: fetch_snapshots_cases)
next
  let ?vs = "resolve_loop (stocks api) stock_ids"
  assume h: "is_connected w \<and> api_set w \<and> snapshots api (map snd ?vs) = Inr snaps \<and>
    list_all2 (\<lambda>(sid, c) s. \<exists>d. build_data now_str sid c s = Inr d) ?vs snaps"
  then have "\<exists>res. fst (store_loop now now_str ?vs snaps Map.empty w) = Inr res \<and>
           dom res = dom (Map.empty :: string \<rightharpoonup> addr) \<union> fst ` set ?vs"
    using store_loop_all by blast
  then obtain res where r: "fst (store_loop now now_str ?vs snaps Map.empty w) = Inr res"
    "dom res = fst ` set ?vs" by auto
  have "fst (fetch_try api now now_str stock_ids w) = Inr res"
  proof (cases "?vs = []")
    case True
    with r show ?thesis by (simp add: fetch_try_def)
  next
    case False
    with h r show ?thesis by (simp add: fetch_try_def)
  qed
  with h r(2) show "dom (fst (fetch_snapshots api now now_str stock_ids w))
        = {sid \<in> set stock_ids. \<exists>c. stocks api sid = LookupOk c}"
    by (simp add: fetch_snapshots_cases resolve_loop_ids)
qed

theorem fetch_snapshots_partial_map_witness:
  "is_connected worker_connected \<and> api_set worker_connected \<and>
   resolve_loop (stocks api_demo) [''9999'', ''2330'', ''0000''] = [(''2330'', \<lparr>contract_name = ''TSMC''\<rparr>)] \<and>
   snapshots api_demo [\<lparr>contract_name = ''TSMC''\<rparr>] = Inr [snap_demo] \<and>
   dom (fst (fetch_snapshots api_demo 1 ''09:00:15'' [''9999'', ''2330'', ''0000''] worker_connected))
     = {''2330''} \<and>
   fst (fetch_snapshots api_demo 1 ''09:00:15'' [''9999'', ''2330'', ''0000''] worker_init) = Map.empty"
proof -
  have 1: "is_connected worker_connected \<and> api_set worker_connected"
    by (simp add: worker_connected_def)
  have 2: "resolve_loop (stocks api_demo) [''9999'', ''2330'', ''0000'']
      = [(''2330'', \<lparr>contract_name = ''TSMC''\<rparr>)]"
    by (simp add: api_demo_def)
  have 3: "snapshots api_demo [\<lparr>contract_name = ''TSMC''\<rparr>] = Inr [snap_demo]"
    by (simp add: api_demo_def)
  have 4: "list_all2 (\<lambda>(sid, c) s. \<exists>d. build_data ''09:00:15'' sid c s = Inr d)
      (resolve_loop (stocks api_demo) [''9999'', ''2330'', ''0000'']) [snap_demo]"
    unfolding 2 using build_demo by simp
  have 5: "{sid \<in> set [''9999'', ''2330'', ''0000'']. \<exists>c. stocks api_demo sid = LookupOk c} = {''2330''}"
    by (auto simp: api_demo_def split: if_splits)
  have 6: "\<not> is_connected worker_init" by (simp add: worker_init_def)
  from fetch_snapshots_partial_map
         [of api_demo 1 "''09:00:15''" "[''9999'', ''2330'', ''0000'']" worker_connected
             TypeError "[snap_demo]"] 1 2 3 4 5
  have a: "dom (fst (fetch_snapshots api_demo 1 ''09:00:15'' [''9999'', ''2330'', ''0000''] worker_connected))
     = {''2330''}" by simp
  from fetch_snapshots_partial_map
         [of api_demo 1 "''09:00:15''" "[''9999'', ''2330'', ''0000'']" worker_init
             TypeError "[snap_demo]"] 6
  have b: "fst (fetch_snapshots api_demo 1 ''09:00:15'' [''9999'', ''2330'', ''0000''] worker_init) = Map.empty"
    by simp
  from 1 2 3 a b show ?thesis by simp
qed

subsection \<open>Reading the cache\<close>

lemma round_600: "round2 (PNum 600) = Inr (PNum 600)"
  by (simp add: round_half_even_def)

lemma cached_demo_heap:
  "cache cached_demo = 0 \<and> length (heap cached_demo) = 2 \<and>
   heap cached_demo ! 0 = Outer [''2330'' \<mapsto> 1] \<and>
   (\<exists>q. heap cached_demo ! 1 = Inner q \<and> map_of q ''price'' = Some (PNum 600))"
  by (simp add: cached_demo_def fetch_snapshots_def fetch_try_def api_demo_def worker_connected_def
      worker_init_def build_data_def snap_demo_def vwap_of_def getattr0_def or0_def Let_def
      cache_put_def round_600)


lemma get_cache_fresh:
  assumes "cache w < length (heap w)"
  shows "fst (get_cache w) = length (heap w)"
    and "cache (snd (get_cache w)) = cache w"
    and "heap (mutate (fst (get_cache w)) v (snd (get_cache w))) = heap w @ [v]"
  using assms by (simp_all add: get_cache_def mutate_def)

lemma get_stock_cache_prefix:
  assumes "cache w < length (heap w)" and "cache w' = cache w" and "heap w' = heap w @ xs"
  shows "get_stock_cache sid w' = get_stock_cache sid w"
  using assms by (simp add: get_stock_cache_def nth_append)

text \<open>
  Claim C8, as the code has it. \<open>get_cache\<close> returns a new top-level dictionary:
  whatever a caller does to that dictionary, later reads return the same objects as
  before and every object that existed is unchanged. The snapshot dictionaries are not
  copied: the entry of the copy and the value of \<open>get_stock_cache\<close> are the cached
  object itself, and a change made in place to it is what later \<open>get_stock_cache\<close> and
  \<open>get_cache\<close> calls show.
\<close>

theorem get_cache_copies_top_level_only:
  "(cache w < length (heap w) \<longrightarrow>
      get_stock_cache sid (mutate (fst (get_cache w)) v (snd (get_cache w))) = get_stock_cache sid w \<and>
      take (length (heap w)) (heap (mutate (fst (get_cache w)) v (snd (get_cache w)))) = heap w \<and>
      entries_at (heap (snd (get_cache (mutate (fst (get_cache w)) v (snd (get_cache w))))))
                 (fst (get_cache (mutate (fst (get_cache w)) v (snd (get_cache w))))) sid
        = entries_at (heap w) (cache w) sid) \<and>
   (cache w < length (heap w) \<and> get_stock_cache sid w = Some b \<and> b < length (heap w) \<and> b \<noteq> cache w \<longrightarrow>
      entries_at (heap (snd (get_cache w))) (fst (get_cache w)) sid = Some b \<and>
      get_stock_cache sid (mutate b (Inner q) w) = Some b \<and>
      snapshot_at (heap (mutate b (Inner q) w)) b = Some q \<and>
      quotes_at (heap (snd (get_cache (mutate b (Inner q) w)))) (fst (get_cache (mutate b (Inner q) w))) sid
        = Some q)"
proof (intro conjI impI)
  assume c: "cache w < length (heap w)"
  let ?a = "fst (get_cache w)"
  let ?w2 = "mutate ?a v (snd (get_cache w))"
  have h: "heap ?w2 = heap w @ [v]" using c by (rule get_cache_fresh(3))
  have k: "cache ?w2 = cache w" using c by (simp add: mutate_def get_cache_def)
  show "get_stock_cache sid ?w2 = get_stock_cache sid w"
    using c k h by (rule get_stock_cache_prefix)
  show "take (length (heap w)) (heap ?w2) = heap w" by (simp add: h)
  show "entries_at (heap (snd (get_cache ?w2))) (fst (get_cache ?w2)) sid
        = entries_at (heap w) (cache w) sid"
    using c by (simp add: get_cache_def mutate_def entries_at_def nth_append)
next
  assume a: "cache w < length (heap w) \<and> get_stock_cache sid w = Some b \<and> b < length (heap w) \<and> b \<noteq> cache w"
  then obtain m where m: "heap w ! cache w = Outer m" "m sid = Some b"
    by (auto simp: get_stock_cache_def split: obj.splits)
  show "entries_at (heap (snd (get_cache w))) (fst (get_cache w)) sid = Some b"
    using a m by (simp add: get_cache_def entries_at_def)
  show g: "get_stock_cache sid (mutate b (Inner q) w) = Some b"
    using a m by (simp add: get_stock_cache_def mutate_def)
  show "snapshot_at (heap (mutate b (Inner q) w)) b = Some q"
    using a by (simp add: snapshot_at_def mutate_def)
  show "quotes_at (heap (snd (get_cache (mutate b (Inner q) w)))) (fst (get_cache (mutate b (Inner q) w))) sid
        = Some q"
    using a m by (simp add: quotes_at_def entries_at_def snapshot_at_def get_cache_def mutate_def nth_append)
qed

theorem get_cache_copies_top_level_only_witness:
  "cache cached_demo < length (heap cached_demo) \<and>
   get_stock_cache ''2330'' cached_demo = Some 1 \<and>
   get_stock_cache ''2330'' (mutate (fst (get_cache cached_demo)) zeroed (snd (get_cache cached_demo))) = Some 1 \<and>
   get_stock_cache ''2330'' (mutate 1 zeroed cached_demo) = Some 1 \<and>
   snapshot_at (heap (mutate 1 zeroed cached_demo)) 1 = Some [(''price'', PNum 0)]"
proof -
  have 1: "cache cached_demo < length (heap cached_demo)" using cached_demo_heap by simp
  have 2: "get_stock_cache ''2330'' cached_demo = Some 1"
    using cached_demo_heap by (simp add: get_stock_cache_def)
  have 3: "(1::nat) < length (heap cached_demo) \<and> 1 \<noteq> cache cached_demo"
    using cached_demo_heap by simp
  from get_cache_copies_top_level_only [of cached_demo "''2330''" zeroed 1 "[(''price'', PNum 0)]"] 1 2 3
  show ?thesis by (simp add: zeroed_def)
qed

text \<open>
  After a caller changes the dictionary that \<open>get_stock_cache\<close> returned, the same call
  and \<open>get_cache\<close> show price 0 where the fetched price was 600.
\<close>

theorem get_stock_cache_shares_counterexample:
  "get_stock_cache ''2330'' cached_demo = Some 1 \<and>
   map_of (the (snapshot_at (heap cached_demo) 1)) ''price'' = Some (PNum 600) \<and>
   get_stock_cache ''2330'' (mutate 1 zeroed cached_demo) = Some 1 \<and>
   map_of (the (snapshot_at (heap (mutate 1 zeroed cached_demo)) 1)) ''price'' = Some (PNum 0) \<and>
   map_of (the (quotes_at (heap (snd (get_cache (mutate 1 zeroed cached_demo))))
                   (fst (get_cache (mutate 1 zeroed cached_demo))) ''2330'')) ''price'' = Some (PNum 0)"
proof -
  from cached_demo_heap obtain q where
    h: "cache cached_demo = 0" "length (heap cached_demo) = 2"
       "heap cached_demo ! 0 = Outer [''2330'' \<mapsto> 1]"
       "heap cached_demo ! 1 = Inner q" "map_of q ''price'' = Some (PNum 600)"
    by blast
  show ?thesis
    using h by (simp add: get_stock_cache_def snapshot_at_def quotes_at_def entries_at_def
        get_cache_def mutate_def zeroed_def nth_append)
qed

(*THMS*)

end
